theory Spec2Isabelle
  imports Complex_Main "HOL-Library.Multiset" "HOL-Library.Sublist"
begin

section \<open>Data model\<close>

text \<open>
  An instant is the millisecond time value of a valid JavaScript \<^verbatim>\<open>Date\<close>
  (what \<^verbatim>\<open>+t.start\<close> reads): an integer. Invalid dates, whose time value
  is NaN, are outside this model. Pixel coordinates are real numbers; the rounding of
  IEEE doubles is only treated where a claim speaks about it.
\<close>

type_synonym instant = int

text \<open>
  The task objects built by \<^verbatim>\<open>allTasks\<close>:
  \<^verbatim>\<open>{ id, resource, start, end, qty, _raw }\<close>. The fields \<^verbatim>\<open>id\<close> and
  \<^verbatim>\<open>end\<close> carry a suffix since both names are taken in Isabelle.
\<close>

record task =
  id_t :: string
  resource :: string
  start :: instant
  end_t :: instant
  qty :: "int option"

text \<open>The objects \<^verbatim>\<open>{ ...t, lane }\<close> pushed by \<^verbatim>\<open>packLanes\<close>.\<close>

record placed_task = task +
  lane :: nat

definition with_lane :: "task \<Rightarrow> nat \<Rightarrow> placed_task" where
  "with_lane t l = task.extend t (placed_task.fields l)"

section \<open>Lane packing\<close>

text \<open>
  \<^verbatim>\<open>
  function packLanes(tasks) {
    const laneEnds = [];
    const placed = [];
    const EPS = 60_000; // 1 min
    const sorted = [...tasks].sort((a, b) => +a.start - +b.start);
    for (const t of sorted) {
      let lane = -1;
      for (let i = 0; i < laneEnds.length; i++) {
        if (+t.start >= laneEnds[i] - EPS) { lane = i; break; }
      }
      if (lane === -1) { lane = laneEnds.length; laneEnds.push(+t.end); }
      else { laneEnds[lane] = +t.end; }
      placed.push({ ...t, lane });
    }
    return { placed, laneCount: laneEnds.length || 1 };
  }
  \<close>
  The inner loop is \<open>findLane\<close> (\<open>None\<close> stands for the sentinel \<^verbatim>\<open>-1\<close>), the
  outer loop is \<open>packLoop\<close>, threading \<^verbatim>\<open>laneEnds\<close> and \<^verbatim>\<open>placed\<close>.
  \<^verbatim>\<open>Array.prototype.sort\<close> is stable, as is \<^const>\<open>sort_key\<close>.
\<close>

definition EPS :: int where
  "EPS = 60000"

fun findLane :: "instant list \<Rightarrow> instant \<Rightarrow> nat \<Rightarrow> nat option" where
  "findLane [] s i = None"
| "findLane (e # es) s i = (if s \<ge> e - EPS then Some i else findLane es s (Suc i))"

fun packLoop :: "task list \<Rightarrow> instant list \<Rightarrow> placed_task list \<Rightarrow> instant list \<times> placed_task list" where
  "packLoop [] laneEnds pl = (laneEnds, pl)"
| "packLoop (t # ts) laneEnds pl =
     (case findLane laneEnds (start t) 0 of
        None \<Rightarrow> packLoop ts (laneEnds @ [end_t t]) (pl @ [with_lane t (length laneEnds)])
      | Some l \<Rightarrow> packLoop ts (laneEnds[l := end_t t]) (pl @ [with_lane t l]))"

record packed =
  placed :: "placed_task list"
  laneCount :: nat

definition packLanes :: "task list \<Rightarrow> packed" where
  "packLanes tasks =
     (let sorted_tasks = sort_key start tasks;
          (laneEnds, pl) = packLoop sorted_tasks [] []
      in \<lparr> placed = pl, laneCount = (if length laneEnds = 0 then 1 else length laneEnds) \<rparr>)"

text \<open>The two facts carried through the outer loop.\<close>

definition lanes_inv :: "instant list \<Rightarrow> placed_task list \<Rightarrow> task list \<Rightarrow> bool" where
  "lanes_inv laneEnds pl rest \<longleftrightarrow>
     (\<forall>p \<in> set pl. lane p < length laneEnds \<and>
        (end_t p = laneEnds ! lane p \<or> (\<forall>t \<in> set rest. end_t p - EPS \<le> start t)))"

definition lane_separated :: "placed_task list \<Rightarrow> bool" where
  "lane_separated pl \<longleftrightarrow>
     (\<forall>j < length pl. \<forall>i < j. lane (pl ! i) = lane (pl ! j) \<longrightarrow> end_t (pl ! i) - EPS \<le> start (pl ! j))"

section \<open>Strings\<close>

text \<open>
  \<^verbatim>\<open>toLowerCase\<close>, \<^verbatim>\<open>trim\<close> and \<^verbatim>\<open>includes\<close> of JavaScript strings,
  on ASCII: letters A to Z are lowered, and the white space trimmed is tab, line feed,
  vertical tab, form feed, carriage return and space. Beyond ASCII JavaScript lowers
  further capitals and trims further white space (the no-break space, for one), which
  these definitions do not; what is proved about them is stated for ASCII strings.
\<close>

definition lowerChar :: "char \<Rightarrow> char" where
  "lowerChar c =
     (if 65 \<le> (of_char c :: nat) \<and> (of_char c :: nat) \<le> 90 then char_of (of_char c + 32 :: nat) else c)"

definition toLowerCase :: "string \<Rightarrow> string" where
  "toLowerCase s = map lowerChar s"

definition isSpace :: "char \<Rightarrow> bool" where
  "isSpace c \<longleftrightarrow> (of_char c :: nat) \<in> {9, 10, 11, 12, 13, 32}"

definition trim :: "string \<Rightarrow> string" where
  "trim s = rev (dropWhile isSpace (rev (dropWhile isSpace s)))"

fun includes_str :: "string \<Rightarrow> string \<Rightarrow> bool" where
  "includes_str [] q = (q = [])"
| "includes_str (c # cs) q = (prefix q (c # cs) \<or> includes_str cs q)"

text \<open>
  What the three helpers are to compute, said without them. A string is ASCII when all
  its characters are below 128; on such strings the helpers above are JavaScript's.
  Two characters are the same letter when they are equal or one is a capital A to Z and
  the other its small letter, 32 higher; two strings are equal ignoring case when they
  are so character by character; a string contains another ignoring case when, at some
  offset, the piece of the other's length equals it ignoring case.
\<close>

definition ascii :: "string \<Rightarrow> bool" where
  "ascii s \<longleftrightarrow> list_all (\<lambda>c. (of_char c :: nat) < 128) s"

definition isUpper :: "char \<Rightarrow> bool" where
  "isUpper c \<longleftrightarrow> 65 \<le> (of_char c :: nat) \<and> (of_char c :: nat) \<le> 90"

definition same_letter :: "char \<Rightarrow> char \<Rightarrow> bool" where
  "same_letter c d \<longleftrightarrow>
     c = d \<or> (isUpper c \<and> (of_char d :: nat) = of_char c + 32)
           \<or> (isUpper d \<and> (of_char c :: nat) = of_char d + 32)"

definition equal_ignoring_case :: "string \<Rightarrow> string \<Rightarrow> bool" where
  "equal_ignoring_case a b \<longleftrightarrow> list_all2 same_letter a b"

definition contains_ignoring_case :: "string \<Rightarrow> string \<Rightarrow> bool" where
  "contains_ignoring_case s q \<longleftrightarrow>
     list_ex (\<lambda>i. equal_ignoring_case (take (length q) (drop i s)) q) [0..<Suc (length s)]"

section \<open>Route detection and the filtered view\<close>

text \<open>
  \<^verbatim>\<open>
  const routeTasks = useMemo(() => {
    const q = query.trim();
    if (!q) return [];
    const exact = allTasks.filter((t) => t.id.toLowerCase() === q.toLowerCase());
    if (exact.length) return exact.slice().sort((a,b)=> +a.start-+b.start);
    const part = allTasks.filter((t) => t.id.toLowerCase().includes(q.toLowerCase()));
    return part.slice().sort((a,b)=> +a.start-+b.start);
  }, [allTasks, query]);
  \<close>
\<close>

definition routeTasks :: "task list \<Rightarrow> string \<Rightarrow> task list" where
  "routeTasks allTasks query =
     (let q = trim query in
      if q = [] then []
      else
        let exact = filter (\<lambda>t. toLowerCase (id_t t) = toLowerCase q) allTasks in
        if exact \<noteq> [] then sort_key start exact
        else
          let part = filter (\<lambda>t. includes_str (toLowerCase (id_t t)) (toLowerCase q)) allTasks
          in sort_key start part)"

text \<open>
  \<^verbatim>\<open>
  const intersects = (t) => {
    if (timeFrom && +t.end <= +timeFrom) return false;
    if (timeTo && +t.start >= +timeTo) return false;
    return true;
  };
  let base = routeTasks.length ? routeTasks : allTasks;
  if (selectedMachines.size > 0) {
    base = base.filter((t) => selectedMachines.has(t.resource));
  }
  if (!routeTasks.length && query) {
    base = base.filter((t) => t.id.toLowerCase().includes(query.toLowerCase()));
  }
  return base.filter(intersects);
  \<close>
  \<^verbatim>\<open>timeFrom\<close> and \<^verbatim>\<open>timeTo\<close> are a date or \<^verbatim>\<open>null\<close>: an option.
\<close>

definition intersects :: "instant option \<Rightarrow> instant option \<Rightarrow> task \<Rightarrow> bool" where
  "intersects timeFrom timeTo t =
     (if (case timeFrom of Some f \<Rightarrow> end_t t \<le> f | None \<Rightarrow> False) then False
      else if (case timeTo of Some u \<Rightarrow> start t \<ge> u | None \<Rightarrow> False) then False
      else True)"

definition filtered ::
  "task list \<Rightarrow> string \<Rightarrow> string set \<Rightarrow> instant option \<Rightarrow> instant option \<Rightarrow> task list" where
  "filtered allTasks query selectedMachines timeFrom timeTo =
     (let route = routeTasks allTasks query;
          base0 = (if route \<noteq> [] then route else allTasks);
          base1 = (if selectedMachines \<noteq> {} then filter (\<lambda>t. resource t \<in> selectedMachines) base0
                   else base0);
          base2 = (if route = [] \<and> query \<noteq> []
                   then filter (\<lambda>t. includes_str (toLowerCase (id_t t)) (toLowerCase query)) base1
                   else base1)
      in filter (intersects timeFrom timeTo) base2)"

section \<open>The time domain\<close>

text \<open>
  \<^verbatim>\<open>
  const computedMinMax = useMemo(() => {
    const addMargin = (mm) => ({ min: mm.min - 60*60*1000, max: mm.max + 60*60*1000 });
    const src = filtered.length ? filtered : allTasks;
    if (!src.length) {
      const baseFrom = timeFrom ? +timeFrom : Date.now() - 12 * 3600_000;
      const baseTo = timeTo ? +timeTo : Date.now() + 12 * 3600_000;
      return { min: baseFrom, max: baseTo };
    }
    let min = +src[0].start, max = +src[0].end;
    for (const t of src) { if (+t.start < min) min = +t.start; if (+t.end > max) max = +t.end; }
    if (timeFrom) min = Math.min(min, +timeFrom);
    if (timeTo) max = Math.max(max, +timeTo);
    return addMargin({ min, max });
  }, [filtered, allTasks, timeFrom, timeTo]);
  \<close>
  The clock \<^verbatim>\<open>Date.now()\<close> is the parameter \<open>now\<close>, read once.
\<close>

record minmax =
  min_t :: instant
  max_t :: instant

definition addMargin :: "minmax \<Rightarrow> minmax" where
  "addMargin mm = \<lparr> min_t = min_t mm - 60 * 60 * 1000, max_t = max_t mm + 60 * 60 * 1000 \<rparr>"

fun scanMinMax :: "task list \<Rightarrow> instant \<Rightarrow> instant \<Rightarrow> instant \<times> instant" where
  "scanMinMax [] mn mx = (mn, mx)"
| "scanMinMax (t # ts) mn mx =
     scanMinMax ts (if start t < mn then start t else mn) (if end_t t > mx then end_t t else mx)"

definition computedMinMax ::
  "task list \<Rightarrow> task list \<Rightarrow> instant option \<Rightarrow> instant option \<Rightarrow> instant \<Rightarrow> minmax" where
  "computedMinMax filtered_tasks allTasks timeFrom timeTo now =
     (let src = (if filtered_tasks \<noteq> [] then filtered_tasks else allTasks) in
      case src of
        [] \<Rightarrow>
          \<lparr> min_t = (case timeFrom of Some f \<Rightarrow> f | None \<Rightarrow> now - 12 * 3600000),
            max_t = (case timeTo of Some u \<Rightarrow> u | None \<Rightarrow> now + 12 * 3600000) \<rparr>
      | t0 # _ \<Rightarrow>
          (case scanMinMax src (start t0) (end_t t0) of
             (mn, mx) \<Rightarrow>
               addMargin
                 \<lparr> min_t = (case timeFrom of Some f \<Rightarrow> min mn f | None \<Rightarrow> mn),
                   max_t = (case timeTo of Some u \<Rightarrow> max mx u | None \<Rightarrow> mx) \<rparr>))"

text \<open>The domain of a whole view: \<^verbatim>\<open>computedMinMax\<close> reads the memo \<^verbatim>\<open>filtered\<close>.\<close>

definition viewDomain ::
  "task list \<Rightarrow> string \<Rightarrow> string set \<Rightarrow> instant option \<Rightarrow> instant option \<Rightarrow> instant \<Rightarrow> minmax" where
  "viewDomain allTasks query selectedMachines timeFrom timeTo now =
     computedMinMax (filtered allTasks query selectedMachines timeFrom timeTo) allTasks timeFrom timeTo now"

text \<open>
  The range the domain is compared with: least start and greatest end of a task list,
  widened by the window bounds that are set and padded by an hour, written with
  \<^const>\<open>Min\<close> and \<^const>\<open>Max\<close> instead of the source's scan.
\<close>

definition paddedRange :: "task list \<Rightarrow> instant option \<Rightarrow> instant option \<Rightarrow> minmax" where
  "paddedRange src timeFrom timeTo =
     \<lparr> min_t = (case timeFrom of Some f \<Rightarrow> min (Min (start ` set src)) f
                                | None \<Rightarrow> Min (start ` set src)) - 3600000,
       max_t = (case timeTo of Some u \<Rightarrow> max (Max (end_t ` set src)) u
                              | None \<Rightarrow> Max (end_t ` set src)) + 3600000 \<rparr>"

section \<open>Coordinates, bar geometry and zoom\<close>

text \<open>
  \<^verbatim>\<open>const pxPerMs = useMemo(() => (pxPerHour || 1) / 3_600_000, [pxPerHour]);\<close>
  The bars are drawn at \<^verbatim>\<open>left = (+task.start - computedMinMax.min) * pxPerMs\<close>, which
  is \<open>timeToPixel\<close>; \<^verbatim>\<open>handleWheel\<close> goes back with
  \<^verbatim>\<open>computedMinMax.min + x / pxPerMsCurrent\<close>, which is \<open>pixelToTime\<close>.
\<close>

definition pxPerMs :: "int \<Rightarrow> real" where
  "pxPerMs pxPerHour = real_of_int (if pxPerHour = 0 then 1 else pxPerHour) / 3600000"

definition timeToPixel :: "instant \<Rightarrow> int \<Rightarrow> real \<Rightarrow> real" where
  "timeToPixel origin pxPerHour t = (t - real_of_int origin) * pxPerMs pxPerHour"

definition pixelToTime :: "instant \<Rightarrow> int \<Rightarrow> real \<Rightarrow> real" where
  "pixelToTime origin pxPerHour x = real_of_int origin + x / pxPerMs pxPerHour"




text \<open>
  \<^verbatim>\<open>
  const handleWheel = (e) => {
    if (!e.ctrlKey || !scrollRef.current) return;
    const container = scrollRef.current;
    const rect = container.getBoundingClientRect();
    const xRel = e.clientX - rect.left;
    const x = xRel + container.scrollLeft;
    const pxPerMsCurrent = (pxPerHour || 1) / 3_600_000;
    const anchorTime = computedMinMax.min + x / pxPerMsCurrent;
    const factor = e.deltaY > 0 ? 0.9 : 1.1;
    const next = Math.max(30, Math.min(300, Math.round(pxPerHour * factor)));
    if (next === pxPerHour) return;
    const pxPerMsNext = next / 3_600_000;
    const anchorXNext = (anchorTime - computedMinMax.min) * pxPerMsNext;
    const newScrollLeft = Math.max(0, anchorXNext - xRel);
    setPxPerHour(next);
    container.scrollLeft = newScrollLeft;
  };
  \<close>
  The state is the scale and the scroll container (absent while \<^verbatim>\<open>scrollRef.current\<close>
  is null). \<^verbatim>\<open>Math.round\<close> rounds halves up, as \<^const>\<open>round\<close> does.
\<close>

record wheel_event =
  ctrlKey :: bool
  clientX :: real
  deltaY :: real

record container =
  rectLeft :: real
  scrollLeft :: real

record zoom_state =
  pxPerHour :: int
  scrollRef :: "container option"

definition nextScale :: "int \<Rightarrow> real \<Rightarrow> int" where
  "nextScale p dy = max 30 (min 300 (round (real_of_int p * (if dy > 0 then 9 / 10 else 11 / 10))))"

definition handleWheel :: "wheel_event \<Rightarrow> instant \<Rightarrow> zoom_state \<Rightarrow> zoom_state" where
  "handleWheel e cmin st =
     (case scrollRef st of
        None \<Rightarrow> st
      | Some c \<Rightarrow>
          if \<not> ctrlKey e then st
          else
            let xRel = clientX e - rectLeft c;
                x = xRel + scrollLeft c;
                pxPerMsCurrent = real_of_int (if pxPerHour st = 0 then 1 else pxPerHour st) / 3600000;
                anchorTime = real_of_int cmin + x / pxPerMsCurrent;
                next = nextScale (pxPerHour st) (deltaY e)
            in if next = pxPerHour st then st
               else
                 let pxPerMsNext = real_of_int next / 3600000;
                     anchorXNext = (anchorTime - real_of_int cmin) * pxPerMsNext;
                     newScrollLeft = max 0 (anchorXNext - xRel)
                 in \<lparr> pxPerHour = next, scrollRef = Some (c\<lparr> scrollLeft := newScrollLeft \<rparr>) \<rparr>)"

section \<open>Rounded arithmetic\<close>

text \<open>
  The standard model of binary64 arithmetic with rounding to nearest: the result of an
  operation is the exact result rounded, with a relative error of at most \<open>1 / 2 ^ 53\<close>
  (exponent range taken as unbounded). \<open>fl_timeToPixel\<close> and \<open>fl_pixelToTime\<close> are the
  two conversions as the source computes them, every operation rounded by \<open>fl\<close>.
\<close>

definition unit_roundoff :: real where
  "unit_roundoff = 1 / 2 ^ 53"

definition rounds_binary64 :: "(real \<Rightarrow> real) \<Rightarrow> bool" where
  "rounds_binary64 fl \<longleftrightarrow> (\<forall>x. \<bar>fl x - x\<bar> \<le> unit_roundoff * \<bar>x\<bar>)"

definition fl_pxPerMs :: "(real \<Rightarrow> real) \<Rightarrow> int \<Rightarrow> real" where
  "fl_pxPerMs fl p = fl (real_of_int (if p = 0 then 1 else p) / 3600000)"

definition fl_timeToPixel :: "(real \<Rightarrow> real) \<Rightarrow> instant \<Rightarrow> int \<Rightarrow> real \<Rightarrow> real" where
  "fl_timeToPixel fl origin p t = fl (fl (t - real_of_int origin) * fl_pxPerMs fl p)"

definition fl_pixelToTime :: "(real \<Rightarrow> real) \<Rightarrow> instant \<Rightarrow> int \<Rightarrow> real \<Rightarrow> real" where
  "fl_pixelToTime fl origin p x = fl (real_of_int origin + fl (x / fl_pxPerMs fl p))"

section \<open>Date parsing\<close>

text \<open>
  \<^verbatim>\<open>
  function toDate(val) {
    if (val instanceof Date) return val;
    if (typeof val === "number") {
      if (val < 10_000_000_000) return new Date(val * 1000);
      return new Date(val);
    }
    if (typeof val === "string") {
      const d1 = new Date(val);
      if (!isNaN(d1.getTime())) return d1;
      const fmts = [ "dd.MM.yyyy HH:mm", "dd.MM.yyyy H:mm", "dd.MM.yyyy",
        "yyyy-MM-dd HH:mm", "yyyy-MM-dd H:mm", "yyyy/MM/dd HH:mm", "yyyy/MM/dd",
        "dd/MM/yyyy HH:mm", "dd/MM/yyyy" ];
      for (const f of fmts) {
        const d = parseDateFns(val, f, new Date(), { locale: pl });
        if (isValid(d)) return d;
      }
    }
    return null;
  }
  \<close>
  Two things the function calls belong to the runtime, not to the program, and are
  parameters of the model: what \<^verbatim>\<open>new Date(string)\<close> makes of a string that is not
  in the ISO format (the language standard leaves it to the implementation), and the
  local time zone, which turns a calendar reading into an instant.
\<close>

record civil =
  year :: int
  month :: int
  day :: int
  hour :: int
  minute :: int

record platform =
  dateParse :: "string \<Rightarrow> instant option"
  localTime :: "civil \<Rightarrow> instant"

text \<open>
  The pattern parser of the date library, for the pattern letters the source uses
  (\<^verbatim>\<open>yyyy MM dd HH H mm\<close>): a run of one letter is a field, any other character must
  match literally, a field of \<open>n\<close> letters reads one to \<open>n\<close> digits (\<^verbatim>\<open>H\<close> reads an
  hour 0 to 23 in one or two digits), only white space may remain, and the fields are
  range-checked, the day against the month and year read. Every pattern of the source
  has year, month and day, so the reference date \<^verbatim>\<open>new Date()\<close> supplies nothing;
  hour and minute default to 0.
\<close>

datatype token = TField char nat | TLit char

definition isLetter :: "char \<Rightarrow> bool" where
  "isLetter c \<longleftrightarrow> (65 \<le> (of_char c :: nat) \<and> (of_char c :: nat) \<le> 90)
                  \<or> (97 \<le> (of_char c :: nat) \<and> (of_char c :: nat) \<le> 122)"

function tokenize :: "string \<Rightarrow> token list" where
  "tokenize [] = []"
| "tokenize (c # cs) =
     (if isLetter c
      then TField c (Suc (length (takeWhile (\<lambda>d. d = c) cs))) # tokenize (dropWhile (\<lambda>d. d = c) cs)
      else TLit c # tokenize cs)"
  by pat_completeness auto
termination
  by (relation "measure length") (auto simp: length_dropWhile_le less_Suc_eq_le)

definition isDigit :: "char \<Rightarrow> bool" where
  "isDigit c \<longleftrightarrow> 48 \<le> (of_char c :: nat) \<and> (of_char c :: nat) \<le> 57"

definition digitVal :: "char \<Rightarrow> int" where
  "digitVal c = int (of_char c) - 48"

fun takeDigits :: "nat \<Rightarrow> string \<Rightarrow> string \<times> string" where
  "takeDigits 0 s = ([], s)"
| "takeDigits (Suc n) [] = ([], [])"
| "takeDigits (Suc n) (c # cs) =
     (if isDigit c then (case takeDigits n cs of (ds, r) \<Rightarrow> (c # ds, r)) else ([], c # cs))"

definition numVal :: "string \<Rightarrow> int" where
  "numVal ds = foldl (\<lambda>a c. 10 * a + digitVal c) 0 ds"

definition parseNDigits :: "nat \<Rightarrow> string \<Rightarrow> (int \<times> string) option" where
  "parseNDigits n s =
     (case takeDigits n s of ([], r) \<Rightarrow> None | (d # ds, r) \<Rightarrow> Some (numVal (d # ds), r))"

fun hour23h :: "string \<Rightarrow> (int \<times> string) option" where
  "hour23h (a # b # r) =
     (if a = CHR ''2'' \<and> b \<in> set ''0123'' then Some (20 + digitVal b, r)
      else if a \<in> set ''01'' \<and> isDigit b then Some (10 * digitVal a + digitVal b, r)
      else if isDigit a then Some (digitVal a, b # r)
      else None)"
| "hour23h [a] = (if isDigit a then Some (digitVal a, []) else None)"
| "hour23h [] = None"

record fields =
  f_year :: "int option"
  f_month :: "int option"
  f_day :: "int option"
  f_hour :: "int option"
  f_minute :: "int option"

definition parseField :: "char \<Rightarrow> nat \<Rightarrow> string \<Rightarrow> fields \<Rightarrow> (fields \<times> string) option" where
  "parseField c n s fs =
     (if c = CHR ''y'' then map_option (\<lambda>(v, r). (fs\<lparr>f_year := Some v\<rparr>, r)) (parseNDigits n s)
      else if c = CHR ''M'' \<and> n = 2 then map_option (\<lambda>(v, r). (fs\<lparr>f_month := Some v\<rparr>, r)) (parseNDigits n s)
      else if c = CHR ''d'' \<and> n = 2 then map_option (\<lambda>(v, r). (fs\<lparr>f_day := Some v\<rparr>, r)) (parseNDigits n s)
      else if c = CHR ''H'' \<and> n = 2 then map_option (\<lambda>(v, r). (fs\<lparr>f_hour := Some v\<rparr>, r)) (parseNDigits n s)
      else if c = CHR ''H'' \<and> n = 1 then map_option (\<lambda>(v, r). (fs\<lparr>f_hour := Some v\<rparr>, r)) (hour23h s)
      else if c = CHR ''m'' \<and> n = 2 then map_option (\<lambda>(v, r). (fs\<lparr>f_minute := Some v\<rparr>, r)) (parseNDigits n s)
      else None)"

fun parseTokens :: "token list \<Rightarrow> string \<Rightarrow> fields \<Rightarrow> fields option" where
  "parseTokens [] s fs = (if list_all isSpace s then Some fs else None)"
| "parseTokens (TLit c # ts) s fs =
     (case s of [] \<Rightarrow> None | d # r \<Rightarrow> if d = c then parseTokens ts r fs else None)"
| "parseTokens (TField c n # ts) s fs =
     (case parseField c n s fs of None \<Rightarrow> None | Some (fs', r) \<Rightarrow> parseTokens ts r fs')"

definition isLeapYearIndex :: "int \<Rightarrow> bool" where
  "isLeapYearIndex y \<longleftrightarrow> y mod 400 = 0 \<or> (y mod 4 = 0 \<and> y mod 100 \<noteq> 0)"

definition daysInMonth :: "int \<Rightarrow> int \<Rightarrow> int" where
  "daysInMonth y m =
     (if m = 2 then (if isLeapYearIndex y then 29 else 28)
      else if m \<in> {4, 6, 9, 11} then 30 else 31)"

definition validate :: "fields \<Rightarrow> civil option" where
  "validate fs =
     (case (f_year fs, f_month fs, f_day fs) of
        (Some y, Some m, Some d) \<Rightarrow>
          (let h = (case f_hour fs of None \<Rightarrow> 0 | Some h \<Rightarrow> h);
               mi = (case f_minute fs of None \<Rightarrow> 0 | Some mi \<Rightarrow> mi)
           in if 0 < y \<and> 1 \<le> m \<and> m \<le> 12 \<and> 1 \<le> d \<and> d \<le> daysInMonth y m
                 \<and> 0 \<le> h \<and> h \<le> 23 \<and> 0 \<le> mi \<and> mi \<le> 59
              then Some \<lparr>year = y, month = m, day = d, hour = h, minute = mi\<rparr>
              else None)
      | _ \<Rightarrow> None)"

definition parseCivil :: "string \<Rightarrow> string \<Rightarrow> civil option" where
  "parseCivil s f =
     (case parseTokens (tokenize f) s
             \<lparr>f_year = None, f_month = None, f_day = None, f_hour = None, f_minute = None\<rparr> of
        None \<Rightarrow> None
      | Some fs \<Rightarrow> validate fs)"

definition parseDateFns :: "platform \<Rightarrow> string \<Rightarrow> string \<Rightarrow> instant option" where
  "parseDateFns P s f = map_option (localTime P) (parseCivil s f)"

definition fmts :: "string list" where
  "fmts = [''dd.MM.yyyy HH:mm'', ''dd.MM.yyyy H:mm'', ''dd.MM.yyyy'',
           ''yyyy-MM-dd HH:mm'', ''yyyy-MM-dd H:mm'', ''yyyy/MM/dd HH:mm'', ''yyyy/MM/dd'',
           ''dd/MM/yyyy HH:mm'', ''dd/MM/yyyy'']"

fun tryFmts :: "platform \<Rightarrow> string \<Rightarrow> string list \<Rightarrow> instant option" where
  "tryFmts P s [] = None"
| "tryFmts P s (f # fs) = (case parseDateFns P s f of Some d \<Rightarrow> Some d | None \<Rightarrow> tryFmts P s fs)"

text \<open>
  The values \<^verbatim>\<open>toDate\<close> is called with: a date, a number, a string, or anything
  else (\<^verbatim>\<open>null\<close>, a boolean). Numbers are the integers; the result \<open>None\<close> is
  \<^verbatim>\<open>null\<close>. For a number the result is the time value handed to \<^verbatim>\<open>new Date\<close>.
\<close>

datatype jsval = VDate instant | VNum int | VStr string | VOther

fun toDate :: "platform \<Rightarrow> jsval \<Rightarrow> instant option" where
  "toDate P (VDate d) = Some d"
| "toDate P (VNum val) = (if val < 10000000000 then Some (val * 1000) else Some val)"
| "toDate P (VStr val) =
     (case dateParse P val of Some d1 \<Rightarrow> Some d1 | None \<Rightarrow> tryFmts P val fmts)"
| "toDate P VOther = None"

text \<open>
  Two concrete runtimes, both in the time zone UTC (days counted from 1 January 1970 in
  the Gregorian calendar). The first rejects every string that is not ISO; the second
  reads a dotted numeric date month first, as the V8 engine's fallback parser does.
\<close>

definition daysFromCivil :: "int \<Rightarrow> int \<Rightarrow> int \<Rightarrow> int" where
  "daysFromCivil y m d =
     (let y' = (if m \<le> 2 then y - 1 else y);
          era = y' div 400;
          yoe = y' - era * 400;
          doy = (153 * (if m > 2 then m - 3 else m + 9) + 2) div 5 + d - 1;
          doe = yoe * 365 + yoe div 4 - yoe div 100 + doy
      in era * 146097 + doe - 719468)"

definition utcTime :: "civil \<Rightarrow> instant" where
  "utcTime c = ((daysFromCivil (year c) (month c) (day c) * 24 + hour c) * 60 + minute c) * 60000"

definition strictPlatform :: platform where
  "strictPlatform = \<lparr> dateParse = (\<lambda>s. None), localTime = utcTime \<rparr>"

definition monthFirstPlatform :: platform where
  "monthFirstPlatform =
     \<lparr> dateParse = (\<lambda>s. map_option utcTime (parseCivil s ''MM.dd.yyyy HH:mm'')),
       localTime = utcTime \<rparr>"

section \<open>Example data\<close>

definition mk_task :: "string \<Rightarrow> string \<Rightarrow> instant \<Rightarrow> instant \<Rightarrow> task" where
  "mk_task i r s e = \<lparr> id_t = i, resource = r, start = s, end_t = e, qty = None \<rparr>"

definition lane_tasks :: "task list" where
  "lane_tasks = [mk_task ''a'' ''M1'' 100 500000, mk_task ''b'' ''M1'' 0 200000,
                 mk_task ''c'' ''M1'' 150000 900000]"

definition route_tasks :: "task list" where
  "route_tasks = [mk_task ''1001'' ''M1'' 0 1000, mk_task ''100'' ''M2'' 5000 6000,
                  mk_task ''100'' ''M1'' 2000 3000]"

definition padded_query :: string where
  "padded_query = ''  aB-7 '' @ [CHR 0x09]"

definition ci_tasks :: "task list" where
  "ci_tasks = [mk_task ''ab-7x'' ''M1'' 0 1000, mk_task ''AB-7'' ''M2'' 5000 6000,
               mk_task ''Ab-7'' ''M1'' 2000 3000, mk_task ''c-9'' ''M3'' 100 200]"

definition one_task :: "task list" where
  "one_task = [mk_task ''t'' ''M1'' 0 1000]"

section \<open>Lane packing: the invariant\<close>

lemma with_lane_simps [simp]:
  "start (with_lane t l) = start t" "end_t (with_lane t l) = end_t t"
  "lane (with_lane t l) = l" "task.truncate (with_lane t l) = t"
  "id_t (with_lane t l) = id_t t" "resource (with_lane t l) = resource t"
  by (simp_all add: with_lane_def task.defs placed_task.defs)


lemma findLane_Some:
  "findLane es s i = Some l \<Longrightarrow> i \<le> l \<and> l - i < length es \<and> es ! (l - i) - EPS \<le> s"
proof (induction es arbitrary: i)
  case Nil
  then show ?case by simp
next
  case (Cons e es)
  show ?case
  proof (cases "s \<ge> e - EPS")
    case True
    with Cons.prems show ?thesis by simp
  next
    case False
    with Cons.prems have "findLane es s (Suc i) = Some l" by simp
    from Cons.IH [OF this] have "Suc i \<le> l" "l - Suc i < length es" "es ! (l - Suc i) - EPS \<le> s"
      by simp_all
    moreover from \<open>Suc i \<le> l\<close> have "l - i = Suc (l - Suc i)" by simp
    ultimately show ?thesis by simp
  qed
qed

lemma packLoop_truncate:
  "map task.truncate (snd (packLoop ts laneEnds pl)) = map task.truncate pl @ ts"
  by (induction ts arbitrary: laneEnds pl) (simp_all split: option.splits)

lemma lane_separated_snoc:
  assumes "lane_separated pl"
    and "\<forall>p \<in> set pl. lane p = lane q \<longrightarrow> end_t p - EPS \<le> start q"
  shows "lane_separated (pl @ [q])"
  unfolding lane_separated_def
proof (intro allI impI)
  fix j i
  assume j: "j < length (pl @ [q])" and i: "i < j"
    and eq: "lane ((pl @ [q]) ! i) = lane ((pl @ [q]) ! j)"
  show "end_t ((pl @ [q]) ! i) - EPS \<le> start ((pl @ [q]) ! j)"
  proof (cases "j < length pl")
    case True
    with i eq assms(1) show ?thesis
      by (simp add: lane_separated_def nth_append)
  next
    case False
    with j have jl: "j = length pl" by simp
    with i have "pl ! i \<in> set pl" by simp
    with assms(2) eq jl i show ?thesis
      by (simp add: nth_append)
  qed
qed

lemma packLoop_inv:
  assumes "sorted (map start ts)" "lanes_inv laneEnds pl ts" "lane_separated pl"
  shows "lane_separated (snd (packLoop ts laneEnds pl)) \<and>
         (\<forall>p \<in> set (snd (packLoop ts laneEnds pl)). lane p < length (fst (packLoop ts laneEnds pl)))"
  using assms
proof (induction ts arbitrary: laneEnds pl)
  case Nil
  then show ?case by (simp add: lanes_inv_def)
next
  case (Cons t ts)
  from Cons.prems(1) have srt: "sorted (map start ts)" and le: "\<forall>u \<in> set ts. start t \<le> start u"
    by simp_all
  show ?case
  proof (cases "findLane laneEnds (start t) 0")
    case None
    let ?le = "laneEnds @ [end_t t]" and ?pl = "pl @ [with_lane t (length laneEnds)]"
    have inv: "lanes_inv ?le ?pl ts"
      using Cons.prems(2) by (auto simp: lanes_inv_def nth_append)
    have sep: "lane_separated ?pl"
      using Cons.prems(2,3) by (intro lane_separated_snoc) (auto simp: lanes_inv_def)
    from Cons.IH [OF srt inv sep] None show ?thesis by simp
  next
    case (Some l)
    from findLane_Some [OF Some] have l: "l < length laneEnds" and fit: "laneEnds ! l - EPS \<le> start t"
      by simp_all
    let ?le = "laneEnds[l := end_t t]" and ?pl = "pl @ [with_lane t l]"
    have inv: "lanes_inv ?le ?pl ts"
      unfolding lanes_inv_def
    proof
      fix p assume p: "p \<in> set ?pl"
      show "lane p < length ?le \<and> (end_t p = ?le ! lane p \<or> (\<forall>u \<in> set ts. end_t p - EPS \<le> start u))"
      proof (cases "p = with_lane t l")
        case True
        with l show ?thesis by simp
      next
        case False
        with p have pin: "p \<in> set pl" by simp
        with Cons.prems(2) have pl: "lane p < length laneEnds"
          and alt: "end_t p = laneEnds ! lane p \<or> (\<forall>u \<in> set (t # ts). end_t p - EPS \<le> start u)"
          by (simp_all add: lanes_inv_def)
        show ?thesis
        proof (cases "lane p = l")
          case True
          from alt have "end_t p - EPS \<le> start t"
            using fit True by auto
          with le have "\<forall>u \<in> set ts. end_t p - EPS \<le> start u" by fastforce
          with pl show ?thesis by simp
        next
          case False
          with alt pl show ?thesis by auto
        qed
      qed
    qed
    have sep: "lane_separated ?pl"
    proof (intro lane_separated_snoc Cons.prems(3) ballI impI)
      fix p assume p: "p \<in> set pl" and "lane p = lane (with_lane t l)"
      then have "lane p = l" by simp
      with p Cons.prems(2) fit show "end_t p - EPS \<le> start (with_lane t l)"
        by (auto simp: lanes_inv_def)
    qed
    from Cons.IH [OF srt inv sep] Some show ?thesis by simp
  qed
qed

lemma packLanes_placed:
  "placed (packLanes tasks) = snd (packLoop (sort_key start tasks) [] [])"
  by (simp add: packLanes_def split: prod.splits)

lemma packLanes_laneCount:
  "laneCount (packLanes tasks) =
     (let n = length (fst (packLoop (sort_key start tasks) [] [])) in if n = 0 then 1 else n)"
  by (simp add: packLanes_def split: prod.splits)

lemma packLanes_truncate:
  "map task.truncate (placed (packLanes tasks)) = sort_key start tasks"
  by (simp add: packLanes_placed packLoop_truncate)

lemma start_truncate: "start (task.truncate p) = start p"
  by (simp add: task.defs)

lemma packLanes_starts:
  "map start (placed (packLanes tasks)) = map start (sort_key start tasks)"
proof -
  have "map start (placed (packLanes tasks)) = map start (map task.truncate (placed (packLanes tasks)))"
    by (simp add: start_truncate)
  then show ?thesis by (simp only: packLanes_truncate)
qed

lemma packLanes_separated: "lane_separated (placed (packLanes tasks))"
  using packLoop_inv [of "sort_key start tasks" "[]" "[]"]
  by (simp add: packLanes_placed lanes_inv_def lane_separated_def)

lemma packLanes_lane_bound:
  "p \<in> set (placed (packLanes tasks)) \<Longrightarrow> lane p < laneCount (packLanes tasks)"
  using packLoop_inv [of "sort_key start tasks" "[]" "[]"]
  by (auto simp: packLanes_placed packLanes_laneCount lanes_inv_def lane_separated_def Let_def)

lemma packLanes_ordered_pair:
  assumes "i < j" "j < length (placed (packLanes tasks))"
    and "lane (placed (packLanes tasks) ! i) = lane (placed (packLanes tasks) ! j)"
  shows "start (placed (packLanes tasks) ! i) \<le> start (placed (packLanes tasks) ! j)"
    and "end_t (placed (packLanes tasks) ! i) - 60000 \<le> start (placed (packLanes tasks) ! j)"
proof -
  let ?pl = "placed (packLanes tasks)"
  have "sorted (map start ?pl)"
    by (simp add: packLanes_starts)
  with assms(1,2) show "start (?pl ! i) \<le> start (?pl ! j)"
    by (simp add: sorted_iff_nth_mono)
  from packLanes_separated [of tasks] assms show "end_t (?pl ! i) - 60000 \<le> start (?pl ! j)"
    by (simp add: lane_separated_def EPS_def)
qed

text \<open>
  Claim C1. After lane packing, two placed tasks (two positions of the placed list) with
  the same lane index never overlap by more than 60000 ms: the common part of their
  intervals, the least end minus the greatest start, is at most 60000 ms. Whenever one
  starts strictly later than the other, it starts no earlier than the other's end minus
  60000 ms; and since the placed list is in start order, the same holds for the entry at
  the later position, which settles equal starts.
\<close>

theorem packLanes_no_overlap:
  assumes "i < length (placed (packLanes tasks))" "j < length (placed (packLanes tasks))" "i \<noteq> j"
    and "lane (placed (packLanes tasks) ! i) = lane (placed (packLanes tasks) ! j)"
  shows "min (end_t (placed (packLanes tasks) ! i)) (end_t (placed (packLanes tasks) ! j))
           - max (start (placed (packLanes tasks) ! i)) (start (placed (packLanes tasks) ! j)) \<le> 60000
       \<and> (start (placed (packLanes tasks) ! i) < start (placed (packLanes tasks) ! j) \<longrightarrow>
            start (placed (packLanes tasks) ! j) \<ge> end_t (placed (packLanes tasks) ! i) - 60000)
       \<and> (i < j \<longrightarrow>
            start (placed (packLanes tasks) ! i) \<le> start (placed (packLanes tasks) ! j) \<and>
            start (placed (packLanes tasks) ! j) \<ge> end_t (placed (packLanes tasks) ! i) - 60000)"
proof (cases "i < j")
  case True
  from packLanes_ordered_pair [OF True assms(2,4)] True show ?thesis by simp
next
  case False
  with assms(3) have ji: "j < i" by simp
  from packLanes_ordered_pair [OF ji assms(1) assms(4) [symmetric]] False show ?thesis by simp
qed

theorem packLanes_no_overlap_witness:
  "(0::nat) < length (placed (packLanes lane_tasks)) \<and> 2 < length (placed (packLanes lane_tasks)) \<and>
   (0::nat) \<noteq> 2 \<and>
   lane (placed (packLanes lane_tasks) ! 0) = lane (placed (packLanes lane_tasks) ! 2) \<and>
   start (placed (packLanes lane_tasks) ! 0) < start (placed (packLanes lane_tasks) ! 2) \<and>
   start (placed (packLanes lane_tasks) ! 2) \<ge> end_t (placed (packLanes lane_tasks) ! 0) - 60000 \<and>
   min (end_t (placed (packLanes lane_tasks) ! 0)) (end_t (placed (packLanes lane_tasks) ! 2))
     - max (start (placed (packLanes lane_tasks) ! 0)) (start (placed (packLanes lane_tasks) ! 2)) \<le> 60000"
proof -
  have pl: "placed (packLanes lane_tasks) =
      [with_lane (mk_task ''b'' ''M1'' 0 200000) 0, with_lane (mk_task ''a'' ''M1'' 100 500000) 1,
       with_lane (mk_task ''c'' ''M1'' 150000 900000) 0]"
    by (simp add: packLanes_def lane_tasks_def mk_task_def EPS_def)
  have h1: "0 < length (placed (packLanes lane_tasks))" by (simp add: pl)
  have h2: "2 < length (placed (packLanes lane_tasks))" by (simp add: pl)
  have h3: "(0::nat) \<noteq> 2" by simp
  have h4: "lane (placed (packLanes lane_tasks) ! 0) = lane (placed (packLanes lane_tasks) ! 2)"
    by (simp add: pl)
  have h5: "start (placed (packLanes lane_tasks) ! 0) < start (placed (packLanes lane_tasks) ! 2)"
    by (simp add: pl mk_task_def)
  from packLanes_no_overlap [OF h1 h2 h3 h4] h1 h2 h4 h5 show ?thesis by simp
qed

text \<open>
  Claim C10. The placed list is a permutation of the input (stripping the lane index gives
  back the input as a multiset), every placed task has a lane index below the lane count,
  and the lane count is at least 1, also for the empty input.
\<close>

theorem packLanes_permutation:
  "mset (map task.truncate (placed (packLanes tasks))) = mset tasks \<and>
   (\<forall>p \<in> set (placed (packLanes tasks)). lane p < laneCount (packLanes tasks)) \<and>
   1 \<le> laneCount (packLanes tasks) \<and>
   laneCount (packLanes []) = 1"
proof -
  have "1 \<le> laneCount (packLanes tasks)"
    by (cases "fst (packLoop (sort_key start tasks) [] [])") (simp_all add: packLanes_laneCount Let_def)
  moreover have "laneCount (packLanes []) = 1"
    by (simp add: packLanes_def)
  ultimately show ?thesis
    by (simp add: packLanes_truncate packLanes_lane_bound)
qed


theorem packLanes_permutation_witness:
  "placed (packLanes lane_tasks) \<noteq> [] \<and>
   mset (map task.truncate (placed (packLanes lane_tasks))) = mset lane_tasks \<and>
   list_all (\<lambda>p. lane p < laneCount (packLanes lane_tasks)) (placed (packLanes lane_tasks)) \<and>
   laneCount (packLanes lane_tasks) = 2"
proof -
  have lc: "laneCount (packLanes lane_tasks) = 2"
    by (simp add: packLanes_def lane_tasks_def mk_task_def EPS_def)
  have ne: "placed (packLanes lane_tasks) \<noteq> []"
    by (simp add: packLanes_def lane_tasks_def mk_task_def EPS_def)
  from packLanes_permutation [of lane_tasks] lc ne show ?thesis by (simp add: list_all_iff)
qed

section \<open>Route detection\<close>

text \<open>
  The helpers against their descriptions: lowering two strings gives the same string
  exactly when they are equal ignoring case; \<open>includes_str\<close> is the contiguous-sublist
  test, so on lowered strings it is containment ignoring case; \<open>trim\<close> removes white
  space at both ends and nothing else.
\<close>

lemma char_of_eq_of_char:
  fixes n :: nat
  assumes "n < 256"
  shows "char_of n = e \<longleftrightarrow> n = of_char e"
proof
  assume "char_of n = e"
  then have "of_char (char_of n) = (of_char e :: nat)" by simp
  with assms show "n = of_char e" by (simp only: of_char_of mod_less)
next
  assume "n = of_char e"
  then show "char_of n = e" by simp
qed

lemma lowerChar_alt: "lowerChar c = (if isUpper c then char_of (of_char c + 32 :: nat) else c)"
  by (simp add: lowerChar_def isUpper_def)

lemma lowerChar_eq_iff: "lowerChar c = lowerChar d \<longleftrightarrow> same_letter c d"
proof (cases "isUpper c")
  case True
  then have c: "(of_char c :: nat) + 32 < 256" by (simp add: isUpper_def)
  show ?thesis
  proof (cases "isUpper d")
    case dU: True
    then have d: "(of_char d :: nat) + 32 < 256" by (simp add: isUpper_def)
    have "lowerChar c = lowerChar d \<longleftrightarrow> c = d"
      using True dU c d by (simp add: lowerChar_alt)
    also have "\<dots> \<longleftrightarrow> same_letter c d"
      using True dU by (auto simp: same_letter_def isUpper_def)
    finally show ?thesis .
  next
    case dL: False
    have "lowerChar c = lowerChar d \<longleftrightarrow> (of_char c :: nat) + 32 = of_char d"
      using True dL by (simp add: lowerChar_alt char_of_eq_of_char [OF c])
    also have "\<dots> \<longleftrightarrow> same_letter c d"
      using True dL by (auto simp: same_letter_def)
    finally show ?thesis .
  qed
next
  case False
  show ?thesis
  proof (cases "isUpper d")
    case dU: True
    then have d: "(of_char d :: nat) + 32 < 256" by (simp add: isUpper_def)
    have "lowerChar c = lowerChar d \<longleftrightarrow> (of_char d :: nat) + 32 = of_char c"
      using False dU by (simp add: lowerChar_alt char_of_eq_of_char [OF d] eq_commute [of c])
    also have "\<dots> \<longleftrightarrow> same_letter c d"
      using False dU by (auto simp: same_letter_def)
    finally show ?thesis .
  next
    case dL: False
    with False show ?thesis
      by (simp add: lowerChar_alt same_letter_def)
  qed
qed

lemma toLowerCase_eq_iff: "toLowerCase a = toLowerCase b \<longleftrightarrow> equal_ignoring_case a b"
  unfolding toLowerCase_def equal_ignoring_case_def
  by (induction a arbitrary: b) (auto simp: lowerChar_eq_iff list_all2_Cons1 map_eq_Cons_conv Cons_eq_map_conv)

lemma includes_str_sublist: "includes_str s q \<longleftrightarrow> sublist q s"
  by (induction s) (auto simp: sublist_Cons_right)

lemma sublist_map_iff:
  "sublist (map f q) (map f s) \<longleftrightarrow>
     (\<exists>i \<le> length s. map f (take (length q) (drop i s)) = map f q)"
proof
  assume "sublist (map f q) (map f s)"
  then obtain ps ss where eq: "map f s = ps @ map f q @ ss"
    by (auto simp: sublist_def)
  have len: "length ps \<le> length s"
    using arg_cong [OF eq, of length] by simp
  have "map f (take (length q) (drop (length ps) s)) = take (length q) (drop (length ps) (map f s))"
    by (simp add: take_map drop_map)
  also have "\<dots> = map f q"
    by (simp add: eq)
  finally show "\<exists>i \<le> length s. map f (take (length q) (drop i s)) = map f q"
    using len by blast
next
  assume "\<exists>i \<le> length s. map f (take (length q) (drop i s)) = map f q"
  then obtain i where i: "map f (take (length q) (drop i s)) = map f q" by blast
  have "s = take i s @ take (length q) (drop i s) @ drop (length q) (drop i s)"
    by (simp only: append_take_drop_id)
  then have "map f s = map f (take i s) @ map f (take (length q) (drop i s)) @ map f (drop (length q) (drop i s))"
    by (metis map_append)
  with i show "sublist (map f q) (map f s)"
    by (auto simp: sublist_def)
qed

lemma includes_str_lower_iff:
  "includes_str (toLowerCase s) (toLowerCase q) \<longleftrightarrow> contains_ignoring_case s q"
proof -
  have "includes_str (toLowerCase s) (toLowerCase q) \<longleftrightarrow>
        (\<exists>i \<le> length s. toLowerCase (take (length q) (drop i s)) = toLowerCase q)"
    unfolding includes_str_sublist toLowerCase_def by (rule sublist_map_iff)
  also have "\<dots> \<longleftrightarrow> contains_ignoring_case s q"
    unfolding contains_ignoring_case_def list_ex_iff set_upt toLowerCase_eq_iff
    by (auto simp: less_Suc_eq_le)
  finally show ?thesis .
qed

lemma trim_decompose:
  "\<exists>l r. s = l @ trim s @ r \<and> list_all isSpace l \<and> list_all isSpace r"
proof -
  define d where "d = dropWhile isSpace s"
  have 1: "s = takeWhile isSpace s @ d"
    by (simp add: d_def)
  have "d = rev (takeWhile isSpace (rev d) @ dropWhile isSpace (rev d))"
    by (simp only: takeWhile_dropWhile_id rev_rev_ident)
  then have 2: "d = trim s @ rev (takeWhile isSpace (rev d))"
    by (simp only: rev_append trim_def d_def)
  have 3: "list_all isSpace (takeWhile isSpace s)"
    by (auto simp: list_all_iff dest: set_takeWhileD)
  have 4: "list_all isSpace (rev (takeWhile isSpace (rev d)))"
    by (auto simp: list_all_iff dest: set_takeWhileD)
  from 1 2 have "s = takeWhile isSpace s @ trim s @ rev (takeWhile isSpace (rev d))"
    by simp
  with 3 4 show ?thesis by blast
qed

lemma trim_ends:
  assumes "trim s \<noteq> []"
  shows "\<not> isSpace (hd (trim s))" "\<not> isSpace (last (trim s))"
proof -
  define d where "d = dropWhile isSpace s"
  define e where "e = dropWhile isSpace (rev d)"
  have t: "trim s = rev e" by (simp add: trim_def d_def e_def)
  with assms have e: "e \<noteq> []" by simp
  then have "\<not> isSpace (hd e)" unfolding e_def by (rule hd_dropWhile)
  with e show "\<not> isSpace (last (trim s))" by (simp add: t last_rev)
  from e have d: "d \<noteq> []" by (auto simp: e_def)
  then have nd: "\<not> isSpace (hd d)" unfolding d_def by (rule hd_dropWhile)
  have "last e = last (rev d)"
    using e unfolding e_def by (metis last_appendR takeWhile_dropWhile_id)
  with d have "last e = hd d" by (simp add: last_rev)
  with nd e show "\<not> isSpace (hd (trim s))" by (simp add: t hd_rev)
qed

text \<open>
  Claim C6. For ASCII strings and a query that is not empty after trimming, where the
  trimmed query is the query without the white space at its two ends: when some
  identifier equals the trimmed query ignoring case, the route is exactly the tasks with
  such an identifier (as a multiset); otherwise it is exactly the tasks whose identifier
  contains the trimmed query ignoring case; in both cases the route is sorted by start.
  The instances below have a padded query in mixed case, a query that only matches as a
  part, and the identifiers 100 and 1001 with the query 100, whose route holds the tasks
  named 100 only.
\<close>

theorem routeTasks_exact_first:
  assumes "ascii query" "\<forall>t \<in> set allTasks. ascii (id_t t)" "trim query \<noteq> []"
  shows "(\<exists>l r. query = l @ trim query @ r \<and> list_all isSpace l \<and> list_all isSpace r)
       \<and> \<not> isSpace (hd (trim query)) \<and> \<not> isSpace (last (trim query))
       \<and> (if \<exists>t \<in> set allTasks. equal_ignoring_case (id_t t) (trim query)
           then mset (routeTasks allTasks query) =
                  mset (filter (\<lambda>t. equal_ignoring_case (id_t t) (trim query)) allTasks)
           else mset (routeTasks allTasks query) =
                  mset (filter (\<lambda>t. contains_ignoring_case (id_t t) (trim query)) allTasks))
       \<and> sorted (map start (routeTasks allTasks query))"
proof -
  have route: "(if \<exists>t \<in> set allTasks. equal_ignoring_case (id_t t) (trim query)
           then mset (routeTasks allTasks query) =
                  mset (filter (\<lambda>t. equal_ignoring_case (id_t t) (trim query)) allTasks)
           else mset (routeTasks allTasks query) =
                  mset (filter (\<lambda>t. contains_ignoring_case (id_t t) (trim query)) allTasks))"
    using assms(3)
    by (auto simp: routeTasks_def Let_def filter_empty_conv toLowerCase_eq_iff includes_str_lower_iff)
  have srt: "sorted (map start (routeTasks allTasks query))"
    by (simp add: routeTasks_def Let_def)
  from trim_decompose [of query] trim_ends [OF assms(3)] route srt show ?thesis
    by (intro conjI)
qed

theorem routeTasks_exact_first_witness:
  "ascii padded_query \<and> ascii '' B-7'' \<and> list_all (\<lambda>t. ascii (id_t t)) ci_tasks
   \<and> trim padded_query = ''aB-7'' \<and> trim '' B-7'' = ''B-7''
   \<and> mset (routeTasks ci_tasks padded_query) =
         mset [mk_task ''AB-7'' ''M2'' 5000 6000, mk_task ''Ab-7'' ''M1'' 2000 3000]
   \<and> map id_t (routeTasks ci_tasks padded_query) = [''Ab-7'', ''AB-7'']
   \<and> mset (routeTasks ci_tasks '' B-7'') =
         mset [mk_task ''ab-7x'' ''M1'' 0 1000, mk_task ''AB-7'' ''M2'' 5000 6000,
               mk_task ''Ab-7'' ''M1'' 2000 3000]
   \<and> map id_t (routeTasks ci_tasks '' B-7'') = [''ab-7x'', ''Ab-7'', ''AB-7'']
   \<and> mset (routeTasks route_tasks ''100'') =
         mset [mk_task ''100'' ''M2'' 5000 6000, mk_task ''100'' ''M1'' 2000 3000]
   \<and> map id_t (routeTasks route_tasks ''100'') = [''100'', ''100'']"
proof -
  note ev = ci_tasks_def route_tasks_def mk_task_def equal_ignoring_case_def
    contains_ignoring_case_def same_letter_def isUpper_def
  have a1: "ascii padded_query" and a2: "ascii '' B-7''" and a3: "ascii ''100''"
    by (simp_all add: ascii_def padded_query_def)
  have b1: "list_all (\<lambda>t. ascii (id_t t)) ci_tasks"
    and b2: "list_all (\<lambda>t. ascii (id_t t)) route_tasks"
    by (simp_all add: ev ascii_def)
  have t1: "trim padded_query = ''aB-7''" and t2: "trim '' B-7'' = ''B-7''"
    and t3: "trim ''100'' = ''100''"
    by (simp_all add: trim_def isSpace_def padded_query_def)
  have n1: "trim padded_query \<noteq> []" and n2: "trim '' B-7'' \<noteq> []" and n3: "trim ''100'' \<noteq> []"
    by (simp_all only: t1 t2 t3) simp_all
  have c1: "\<forall>t \<in> set ci_tasks. ascii (id_t t)" and c2: "\<forall>t \<in> set route_tasks. ascii (id_t t)"
    using b1 b2 by (simp_all only: list_all_iff)
  have e1: "\<exists>t \<in> set ci_tasks. equal_ignoring_case (id_t t) ''aB-7''"
    by (simp add: ev)
  have e2: "\<not> (\<exists>t \<in> set ci_tasks. equal_ignoring_case (id_t t) ''B-7'')"
    by (simp add: ev)
  have e3: "\<exists>t \<in> set route_tasks. equal_ignoring_case (id_t t) ''100''"
    by (simp add: ev)
  have f1: "filter (\<lambda>t. equal_ignoring_case (id_t t) ''aB-7'') ci_tasks =
      [mk_task ''AB-7'' ''M2'' 5000 6000, mk_task ''Ab-7'' ''M1'' 2000 3000]"
    by (simp add: ev)
  have f2: "filter (\<lambda>t. contains_ignoring_case (id_t t) ''B-7'') ci_tasks =
      [mk_task ''ab-7x'' ''M1'' 0 1000, mk_task ''AB-7'' ''M2'' 5000 6000,
       mk_task ''Ab-7'' ''M1'' 2000 3000]"
    by (simp add: ev)
  have f3: "filter (\<lambda>t. equal_ignoring_case (id_t t) ''100'') route_tasks =
      [mk_task ''100'' ''M2'' 5000 6000, mk_task ''100'' ''M1'' 2000 3000]"
    by (simp add: ev)
  have m1: "mset (routeTasks ci_tasks padded_query) =
        mset [mk_task ''AB-7'' ''M2'' 5000 6000, mk_task ''Ab-7'' ''M1'' 2000 3000]"
    using routeTasks_exact_first [OF a1 c1 n1] e1 unfolding t1 f1 [symmetric]
    by (auto split: if_splits)
  have m2: "mset (routeTasks ci_tasks '' B-7'') =
        mset [mk_task ''ab-7x'' ''M1'' 0 1000, mk_task ''AB-7'' ''M2'' 5000 6000,
              mk_task ''Ab-7'' ''M1'' 2000 3000]"
    using routeTasks_exact_first [OF a2 c1 n2] e2 unfolding t2 f2 [symmetric]
    by (auto split: if_splits)
  have m3: "mset (routeTasks route_tasks ''100'') =
        mset [mk_task ''100'' ''M2'' 5000 6000, mk_task ''100'' ''M1'' 2000 3000]"
    using routeTasks_exact_first [OF a3 c2 n3] e3 unfolding t3 f3 [symmetric]
    by (auto split: if_splits)
  have i1: "map id_t (routeTasks ci_tasks padded_query) = [''Ab-7'', ''AB-7'']"
    by code_simp
  have i2: "map id_t (routeTasks ci_tasks '' B-7'') = [''ab-7x'', ''Ab-7'', ''AB-7'']"
    by code_simp
  have i3: "map id_t (routeTasks route_tasks ''100'') = [''100'', ''100'']"
    by code_simp
  from a1 a2 b1 t1 t2 m1 i1 m2 i2 m3 i3 show ?thesis by (intro conjI)
qed

section \<open>The time window\<close>

lemma intersects_iff:
  "intersects timeFrom timeTo t \<longleftrightarrow>
     (case timeFrom of Some f \<Rightarrow> f < end_t t | None \<Rightarrow> True) \<and>
     (case timeTo of Some u \<Rightarrow> start t < u | None \<Rightarrow> True)"
  by (auto simp: intersects_def split: option.splits)

lemma filtered_window:
  "filtered allTasks query sel timeFrom timeTo =
     filter (intersects timeFrom timeTo) (filtered allTasks query sel None None)"
  by (simp add: filtered_def Let_def intersects_iff)

text \<open>
  Claim C5, amended. The window test is applied last, on top of the other filters. A task
  ending at or before \<open>from\<close> is excluded; a task starting at or after \<open>to\<close> is
  excluded; a task that strictly spans \<open>from\<close> is included when \<open>to\<close> is unset or not
  before \<open>from\<close>, and one that strictly spans \<open>to\<close> is included when \<open>from\<close> is unset
  or not after \<open>to\<close>; an unset bound imposes no constraint, the other bound alone
  decides.
\<close>

theorem window_exclusion:
  "filtered allTasks query sel timeFrom timeTo =
     filter (intersects timeFrom timeTo) (filtered allTasks query sel None None)
   \<and> (timeFrom = Some f \<and> end_t t \<le> f \<longrightarrow> \<not> intersects timeFrom timeTo t)
   \<and> (timeTo = Some u \<and> u \<le> start t \<longrightarrow> \<not> intersects timeFrom timeTo t)
   \<and> (timeFrom = Some f \<and> start t < f \<and> f < end_t t \<and> (case timeTo of Some u' \<Rightarrow> f \<le> u' | None \<Rightarrow> True)
        \<longrightarrow> intersects timeFrom timeTo t)
   \<and> (timeTo = Some u \<and> start t < u \<and> u < end_t t \<and> (case timeFrom of Some f' \<Rightarrow> f' \<le> u | None \<Rightarrow> True)
        \<longrightarrow> intersects timeFrom timeTo t)
   \<and> (intersects None timeTo t \<longleftrightarrow> (case timeTo of Some u' \<Rightarrow> start t < u' | None \<Rightarrow> True))
   \<and> (intersects timeFrom None t \<longleftrightarrow> (case timeFrom of Some f' \<Rightarrow> f' < end_t t | None \<Rightarrow> True))"
proof (intro conjI)
  show "filtered allTasks query sel timeFrom timeTo =
     filter (intersects timeFrom timeTo) (filtered allTasks query sel None None)"
    by (rule filtered_window)
qed (auto simp: intersects_iff split: option.splits)

theorem window_exclusion_witness:
  "\<not> intersects (Some 100) (Some 200) (mk_task ''a'' ''M1'' 50 100) \<and>
   \<not> intersects (Some 100) (Some 200) (mk_task ''b'' ''M1'' 200 300) \<and>
   intersects (Some 100) (Some 200) (mk_task ''c'' ''M1'' 50 150) \<and>
   intersects (Some 100) (Some 200) (mk_task ''d'' ''M1'' 150 250) \<and>
   intersects None None (mk_task ''a'' ''M1'' 50 100)"
proof -
  note w = window_exclusion [where allTasks = "[]" and query = "[]" and sel = "{}" and f = 100 and u = 200]
  have a: "\<not> intersects (Some 100) (Some 200) (mk_task ''a'' ''M1'' 50 100)"
    using w [where timeFrom = "Some 100" and timeTo = "Some 200" and t = "mk_task ''a'' ''M1'' 50 100"]
    by (simp add: mk_task_def)
  have b: "\<not> intersects (Some 100) (Some 200) (mk_task ''b'' ''M1'' 200 300)"
    using w [where timeFrom = "Some 100" and timeTo = "Some 200" and t = "mk_task ''b'' ''M1'' 200 300"]
    by (simp add: mk_task_def)
  have c: "intersects (Some 100) (Some 200) (mk_task ''c'' ''M1'' 50 150)"
    using w [where timeFrom = "Some 100" and timeTo = "Some 200" and t = "mk_task ''c'' ''M1'' 50 150"]
    by (simp add: mk_task_def)
  have d: "intersects (Some 100) (Some 200) (mk_task ''d'' ''M1'' 150 250)"
    using w [where timeFrom = "Some 100" and timeTo = "Some 200" and t = "mk_task ''d'' ''M1'' 150 250"]
    by (simp add: mk_task_def)
  have e: "intersects None None (mk_task ''a'' ''M1'' 50 100)"
    using w [where timeFrom = None and timeTo = None and t = "mk_task ''a'' ''M1'' 50 100"]
    by simp
  from a b c d e show ?thesis by simp
qed

text \<open>
  The claim as written fails for a window whose \<open>to\<close> lies before its \<open>from\<close> (the two
  inputs are independent): the task from 60 to 200 strictly spans \<open>from = 100\<close>, and is
  excluded since it starts after \<open>to = 50\<close>.
\<close>

theorem window_spanning_counterexample:
  "start (mk_task ''x'' ''M1'' 60 200) < 100 \<and> 100 < end_t (mk_task ''x'' ''M1'' 60 200) \<and>
   \<not> intersects (Some 100) (Some 50) (mk_task ''x'' ''M1'' 60 200) \<and>
   filtered [mk_task ''x'' ''M1'' 60 200] [] {} (Some 100) (Some 50) = []"
  by (simp add: mk_task_def intersects_def filtered_def routeTasks_def trim_def)

section \<open>The time domain\<close>

lemma scanMinMax_Min_Max:
  "scanMinMax ts mn mx = (Min (insert mn (start ` set ts)), Max (insert mx (end_t ` set ts)))"
proof (induction ts arbitrary: mn mx)
  case Nil
  show ?case by simp
next
  case (Cons t ts)
  have mn: "Min (insert (if start t < mn then start t else mn) (start ` set ts)) =
            Min (insert mn (insert (start t) (start ` set ts)))"
    by (cases "start ` set ts = {}") (auto simp: min_def)
  have mx: "Max (insert (if mx < end_t t then end_t t else mx) (end_t ` set ts)) =
            Max (insert mx (insert (end_t t) (end_t ` set ts)))"
    by (cases "end_t ` set ts = {}") (auto simp: max_def)
  show ?case by (simp add: Cons.IH mn mx)
qed

lemma scanMinMax_head:
  "scanMinMax (t0 # rest) (start t0) (end_t t0) =
     (Min (start ` set (t0 # rest)), Max (end_t ` set (t0 # rest)))"
proof -
  have "insert (start t0) (start ` set (t0 # rest)) = start ` set (t0 # rest)"
       "insert (end_t t0) (end_t ` set (t0 # rest)) = end_t ` set (t0 # rest)"
    by auto
  then show ?thesis
    by (simp only: scanMinMax_Min_Max)
qed

lemma computedMinMax_Cons:
  "computedMinMax (t0 # rest) allTasks timeFrom timeTo now = paddedRange (t0 # rest) timeFrom timeTo"
  unfolding computedMinMax_def Let_def paddedRange_def
  by (simp only: scanMinMax_head list.case prod.case addMargin_def if_True list.distinct not_False_eq_True simp_thms)
     (simp split: option.splits)

lemma computedMinMax_Nil_Cons:
  "computedMinMax [] (t0 # rest) timeFrom timeTo now = paddedRange (t0 # rest) timeFrom timeTo"
  unfolding computedMinMax_def Let_def paddedRange_def
  by (simp only: scanMinMax_head list.case prod.case addMargin_def if_False simp_thms)
     (simp split: option.splits)

lemma computedMinMax_empty:
  "computedMinMax [] [] timeFrom timeTo now =
     \<lparr> min_t = (case timeFrom of Some f \<Rightarrow> f | None \<Rightarrow> now - 12 * 3600000),
       max_t = (case timeTo of Some u \<Rightarrow> u | None \<Rightarrow> now + 12 * 3600000) \<rparr>"
  by (simp add: computedMinMax_def)

lemma filtered_subset: "set (filtered allTasks query sel timeFrom timeTo) \<subseteq> set allTasks"
  by (auto simp: filtered_def routeTasks_def Let_def split: if_splits)

lemma filtered_Nil: "filtered [] query sel timeFrom timeTo = []"
  using filtered_subset [of "[]" query sel timeFrom timeTo] by simp

text \<open>
  Claim C4, amended. With \<open>vis\<close> the visible tasks (the route's, when a route is active):
  when some task is visible, the domain runs from the least start of the visible tasks, or
  \<open>from\<close> if that is set and earlier, to their greatest end, or \<open>to\<close> if that is set and
  later, padded by 3600000 ms on each side; when no task is visible but
  tasks are loaded, the same is computed over all loaded tasks; only when no task is
  loaded at all is the domain \<open>from\<close> (or now minus 12 h) to \<open>to\<close> (or now plus 12 h),
  without padding.
\<close>

theorem viewDomain_cases:
  "viewDomain allTasks query sel timeFrom timeTo now =
     (let vis = filtered allTasks query sel timeFrom timeTo;
          src = (if vis \<noteq> [] then vis else allTasks)
      in if src = []
         then \<lparr> min_t = (case timeFrom of Some f \<Rightarrow> f | None \<Rightarrow> now - 12 * 3600000),
                max_t = (case timeTo of Some u \<Rightarrow> u | None \<Rightarrow> now + 12 * 3600000) \<rparr>
         else \<lparr> min_t = (case timeFrom of Some f \<Rightarrow> min (Min (start ` set src)) f
                                          | None \<Rightarrow> Min (start ` set src)) - 3600000,
                max_t = (case timeTo of Some u \<Rightarrow> max (Max (end_t ` set src)) u
                                        | None \<Rightarrow> Max (end_t ` set src)) + 3600000 \<rparr>)"
proof (cases "filtered allTasks query sel timeFrom timeTo")
  case (Cons t0 rest)
  then show ?thesis
    by (simp add: viewDomain_def computedMinMax_Cons paddedRange_def Let_def)
next
  case Nil
  show ?thesis
  proof (cases allTasks)
    case Nil
    then show ?thesis
      by (simp add: viewDomain_def filtered_Nil computedMinMax_empty Let_def)
  next
    case (Cons t0 rest)
    with \<open>filtered allTasks query sel timeFrom timeTo = []\<close> show ?thesis
      by (simp add: viewDomain_def computedMinMax_Nil_Cons paddedRange_def Let_def split: option.splits)
  qed
qed

text \<open>
  The claim as written fails when tasks are loaded and none is visible: with one task from
  0 to 1000 and the window starting at 5000, nothing is visible, and the domain is
  computed from the loaded task, not from the clock.
\<close>

theorem viewDomain_counterexample:
  "filtered one_task [] {} (Some 5000) None = [] \<and>
   viewDomain one_task [] {} (Some 5000) None 0 = \<lparr> min_t = - 3600000, max_t = 3601000 \<rparr> \<and>
   viewDomain one_task [] {} (Some 5000) None 0 \<noteq> \<lparr> min_t = 5000, max_t = 0 + 12 * 3600000 \<rparr>"
  by (simp add: viewDomain_def computedMinMax_def addMargin_def filtered_def routeTasks_def trim_def
      intersects_def one_task_def mk_task_def)

theorem viewDomain_cases_witness:
  "viewDomain route_tasks ''100'' {} (Some 2500) None 0 = \<lparr> min_t = 2000 - 3600000, max_t = 6000 + 3600000 \<rparr> \<and>
   viewDomain one_task [] {} (Some 5000) None 0 = \<lparr> min_t = 0 - 3600000, max_t = 1000 + 3600000 \<rparr> \<and>
   viewDomain [] [] {} (Some 5000) None 7 = \<lparr> min_t = 5000, max_t = 7 + 12 * 3600000 \<rparr>"
proof -
  have v1: "filtered route_tasks ''100'' {} (Some 2500) None =
      [mk_task ''100'' ''M1'' 2000 3000, mk_task ''100'' ''M2'' 5000 6000]"
    by (simp add: filtered_def routeTasks_def route_tasks_def mk_task_def trim_def isSpace_def
        toLowerCase_def lowerChar_def intersects_def Let_def)
  have v2: "filtered one_task [] {} (Some 5000) None = []"
    by (simp add: filtered_def routeTasks_def one_task_def mk_task_def trim_def intersects_def)
  have v3: "filtered [] [] {} (Some 5000) None = []"
    by (simp add: filtered_def routeTasks_def trim_def)
  have d1: "viewDomain route_tasks ''100'' {} (Some 2500) None 0 = \<lparr> min_t = 2000 - 3600000, max_t = 6000 + 3600000 \<rparr>"
    using viewDomain_cases [of route_tasks "''100''" "{}" "Some 2500" None 0]
    by (simp add: v1 mk_task_def)
  have d2: "viewDomain one_task [] {} (Some 5000) None 0 = \<lparr> min_t = 0 - 3600000, max_t = 1000 + 3600000 \<rparr>"
    using viewDomain_cases [of one_task "[]" "{}" "Some 5000" None 0]
    by (simp add: v2) (simp add: one_task_def mk_task_def)
  have d3: "viewDomain [] [] {} (Some 5000) None 7 = \<lparr> min_t = 5000, max_t = 7 + 12 * 3600000 \<rparr>"
    using viewDomain_cases [of "[]" "[]" "{}" "Some 5000" None 7]
    by (simp add: v3)
  from d1 d2 d3 show ?thesis by simp
qed

section \<open>Bar height\<close>



section \<open>Numeric dates\<close>

text \<open>
  Claim C8. A number below 10000000000 is read as seconds (the instant is the number times
  1000), any other number as milliseconds. So 1700000000 and 1700000000000 give the same
  instant, which lies in the minute 22:13 of 14 November 2023 (UTC).
\<close>

theorem toDate_epoch:
  "toDate P (VNum v) = Some (if v < 10000000000 then v * 1000 else v) \<and>
   toDate P (VNum 1700000000) = Some 1700000000000 \<and>
   toDate P (VNum 1700000000000) = Some 1700000000000 \<and>
   utcTime \<lparr>year = 2023, month = 11, day = 14, hour = 22, minute = 13\<rparr> \<le> 1700000000000 \<and>
   1700000000000 < utcTime \<lparr>year = 2023, month = 11, day = 14, hour = 22, minute = 14\<rparr>"
  by (simp add: utcTime_def daysFromCivil_def)

section \<open>Coordinates and zoom\<close>

lemma pxPerMs_pos: "0 < p \<Longrightarrow> pxPerMs p = real_of_int p / 3600000 \<and> 0 < pxPerMs p"
  by (simp add: pxPerMs_def)

lemma nextScale_range: "30 \<le> nextScale p dy \<and> nextScale p dy \<le> 300"
  by (simp add: nextScale_def)

lemma timeToPixel_pixelToTime: "0 < p \<Longrightarrow> timeToPixel origin p (pixelToTime origin p x) = x"
  by (simp add: timeToPixel_def pixelToTime_def pxPerMs_def)

lemma pixelToTime_timeToPixel: "0 < p \<Longrightarrow> pixelToTime origin p (timeToPixel origin p t) = t"
  by (simp add: timeToPixel_def pixelToTime_def pxPerMs_def)

lemma handleWheel_noop:
  "nextScale (pxPerHour st) (deltaY e) = pxPerHour st \<Longrightarrow> handleWheel e cmin st = st"
  using nextScale_range [of "pxPerHour st" "deltaY e"]
  by (auto simp: handleWheel_def Let_def split: option.splits)

lemma handleWheel_step:
  assumes "0 < pxPerHour st" "ctrlKey e" "scrollRef st = Some c"
    and "nextScale (pxPerHour st) (deltaY e) \<noteq> pxPerHour st"
  shows "handleWheel e cmin st =
     \<lparr> pxPerHour = nextScale (pxPerHour st) (deltaY e),
       scrollRef = Some (c\<lparr> scrollLeft :=
         max 0 (timeToPixel cmin (nextScale (pxPerHour st) (deltaY e))
                  (pixelToTime cmin (pxPerHour st) (clientX e - rectLeft c + scrollLeft c))
                - (clientX e - rectLeft c)) \<rparr>) \<rparr>"
proof -
  have nz: "nextScale (pxPerHour st) (deltaY e) \<noteq> 0"
    using nextScale_range [of "pxPerHour st" "deltaY e"] by linarith
  have key: "(real_of_int cmin + (clientX e - rectLeft k + scrollLeft k) /
                 (real_of_int (if pxPerHour st = 0 then 1 else pxPerHour st) / 3600000) - real_of_int cmin)
               * (real_of_int (nextScale (pxPerHour st) (deltaY e)) / 3600000)
             = timeToPixel cmin (nextScale (pxPerHour st) (deltaY e))
                 (pixelToTime cmin (pxPerHour st) (clientX e - rectLeft k + scrollLeft k))" for k
    using nz by (simp add: timeToPixel_def pixelToTime_def pxPerMs_def)
  show ?thesis
    unfolding handleWheel_def Let_def key
    using assms by simp
qed

text \<open>
  Claim C3. For a zoom step with the control key held, at a scale between 30 and 300: the
  anchor instant is the instant of the content pixel \<open>xRel + s\<close> at the old scale (so it
  sits at the viewport pixel \<open>xRel\<close> before the step); the new scale is the rounded product,
  clamped to 30 and 300; when it equals the old scale the step changes nothing; otherwise
  the scale becomes the new one and the scroll offset becomes the pixel of the anchor
  instant at the new scale minus \<open>xRel\<close>, floored at zero; and when the floor does not
  bind, the anchor instant is at the viewport pixel \<open>xRel\<close> again, exactly, and within one
  pixel for any stored offset that is within one pixel of the emitted one.
\<close>

theorem handleWheel_zoom:
  assumes "30 \<le> pxPerHour st" "pxPerHour st \<le> 300" "ctrlKey e" "scrollRef st = Some c"
  shows
    "(let p = pxPerHour st;
          s = scrollLeft c;
          xRel = clientX e - rectLeft c;
          anchor = real_of_int cmin + (xRel + s) / (real_of_int p / 3600000);
          next = max 30 (min 300 (round (real_of_int p * (if deltaY e > 0 then 9 / 10 else 11 / 10))));
          anchorX = (anchor - real_of_int cmin) * real_of_int next / 3600000;
          st' = handleWheel e cmin st
      in anchor = pixelToTime cmin p (xRel + s)
         \<and> timeToPixel cmin p anchor - s = xRel
         \<and> anchorX = timeToPixel cmin next anchor
         \<and> (next = p \<longrightarrow> st' = st)
         \<and> (next \<noteq> p \<longrightarrow>
               st' = \<lparr> pxPerHour = next, scrollRef = Some (c\<lparr> scrollLeft := max 0 (anchorX - xRel) \<rparr>) \<rparr>
               \<and> (0 \<le> anchorX - xRel \<longrightarrow>
                     anchorX - max 0 (anchorX - xRel) = xRel
                     \<and> (\<forall>s'. \<bar>s' - max 0 (anchorX - xRel)\<bar> \<le> 1 \<longrightarrow> \<bar>(anchorX - s') - xRel\<bar> \<le> 1))))"
proof -
  let ?p = "pxPerHour st"
  let ?xRel = "clientX e - rectLeft c"
  let ?next = "nextScale ?p (deltaY e)"
  let ?anchor = "pixelToTime cmin ?p (?xRel + scrollLeft c)"
  from assms(1) have pos: "0 < ?p" by simp
  have npos: "0 < ?next" using nextScale_range [of ?p "deltaY e"] by linarith
  have a1: "real_of_int cmin + (?xRel + scrollLeft c) / (real_of_int ?p / 3600000) = ?anchor"
    using pos by (simp add: pixelToTime_def pxPerMs_def)
  have a2: "timeToPixel cmin ?p ?anchor - scrollLeft c = ?xRel"
    using pos by (simp add: timeToPixel_pixelToTime)
  have a3: "(?anchor - real_of_int cmin) * real_of_int ?next / 3600000 = timeToPixel cmin ?next ?anchor"
    using npos by (simp add: timeToPixel_def pxPerMs_def)
  have a4: "?next = ?p \<longrightarrow> handleWheel e cmin st = st"
    by (simp add: handleWheel_noop)
  have a5: "?next \<noteq> ?p \<longrightarrow> handleWheel e cmin st =
      \<lparr> pxPerHour = ?next, scrollRef = Some (c\<lparr> scrollLeft :=
          max 0 (timeToPixel cmin ?next ?anchor - ?xRel) \<rparr>) \<rparr>"
    using handleWheel_step [OF pos assms(3,4)] by simp
  have a6: "0 \<le> x - ?xRel \<longrightarrow> x - max 0 (x - ?xRel) = ?xRel
       \<and> (\<forall>s'. \<bar>s' - max 0 (x - ?xRel)\<bar> \<le> 1 \<longrightarrow> \<bar>(x - s') - ?xRel\<bar> \<le> 1)" for x :: real
    by auto
  show ?thesis
    unfolding Let_def nextScale_def [symmetric] a1 a3
    using a2 a4 a5 a6 by simp
qed

theorem handleWheel_zoom_witness:
  "handleWheel \<lparr>ctrlKey = True, clientX = 260, deltaY = - 1\<rparr> 0
      \<lparr>pxPerHour = 110, scrollRef = Some \<lparr>rectLeft = 60, scrollLeft = 500\<rparr>\<rparr>
     = \<lparr>pxPerHour = 121, scrollRef = Some \<lparr>rectLeft = 60, scrollLeft = 570\<rparr>\<rparr> \<and>
   timeToPixel 0 121 (pixelToTime 0 110 (200 + 500)) - 570 = 200 \<and>
   handleWheel \<lparr>ctrlKey = True, clientX = 260, deltaY = - 1\<rparr> 0
      \<lparr>pxPerHour = 300, scrollRef = Some \<lparr>rectLeft = 60, scrollLeft = 500\<rparr>\<rparr>
     = \<lparr>pxPerHour = 300, scrollRef = Some \<lparr>rectLeft = 60, scrollLeft = 500\<rparr>\<rparr>"
proof -
  let ?e = "\<lparr>ctrlKey = True, clientX = 260, deltaY = - 1\<rparr>"
  let ?c = "\<lparr>rectLeft = 60, scrollLeft = 500\<rparr>"
  have r1: "round (110 * (11 / 10) :: real) = 121" by (simp add: round_def)
  have r2: "round (300 * (11 / 10) :: real) = 330" by (simp add: round_def)
  have w1: "handleWheel ?e 0 \<lparr>pxPerHour = 110, scrollRef = Some ?c\<rparr>
      = \<lparr>pxPerHour = 121, scrollRef = Some \<lparr>rectLeft = 60, scrollLeft = 570\<rparr>\<rparr>
      \<and> timeToPixel 0 121 (pixelToTime 0 110 (200 + 500)) - 570 = 200"
    using handleWheel_zoom [of "\<lparr>pxPerHour = 110, scrollRef = Some ?c\<rparr>" ?e ?c 0]
    by (simp add: Let_def r1 pixelToTime_def pxPerMs_def)
  have w2: "handleWheel ?e 0 \<lparr>pxPerHour = 300, scrollRef = Some ?c\<rparr>
      = \<lparr>pxPerHour = 300, scrollRef = Some ?c\<rparr>"
    using handleWheel_zoom [of "\<lparr>pxPerHour = 300, scrollRef = Some ?c\<rparr>" ?e ?c 0]
    by (simp add: Let_def r2)
  from w1 w2 show ?thesis by simp
qed

lemma rel_error_pos:
  fixes f k :: real
  assumes "0 < k" "9007199254740992 * \<bar>f - k\<bar> \<le> \<bar>k\<bar>"
  shows "0 < f"
proof -
  define x where "x = \<bar>f - k\<bar>"
  have "k - f \<le> x" by (simp add: x_def)
  moreover from assms have "9007199254740992 * x \<le> k" by (simp add: x_def)
  ultimately show ?thesis using assms(1) by linarith
qed

lemma rel_error_two_steps:
  fixes y a z :: real
  assumes e1: "9007199254740992 * \<bar>y - a\<bar> \<le> \<bar>a\<bar>"
    and e2: "9007199254740992 * \<bar>z - y\<bar> \<le> \<bar>y\<bar>"
  shows "9007199254740992 * \<bar>z - a\<bar> \<le> 3 * \<bar>a\<bar>"
proof -
  define A where "A = \<bar>a\<bar>"
  define Y where "Y = \<bar>y\<bar>"
  define u where "u = \<bar>y - a\<bar>"
  define v where "v = \<bar>z - y\<bar>"
  define w where "w = \<bar>z - a\<bar>"
  have "0 \<le> A" by (simp add: A_def)
  moreover have "Y \<le> u + A" unfolding Y_def u_def A_def by simp
  moreover have "w \<le> v + u" unfolding w_def v_def u_def by simp
  moreover from e1 have "9007199254740992 * u \<le> A" by (simp add: u_def A_def)
  moreover from e2 have "9007199254740992 * v \<le> Y" by (simp add: v_def Y_def)
  ultimately have "9007199254740992 * w \<le> 3 * A" by linarith
  then show ?thesis by (simp add: w_def A_def)
qed

lemma rel_error_roundtrip:
  fixes a d q r o' :: real
  assumes e1: "9007199254740992 * \<bar>a - d\<bar> \<le> \<bar>d\<bar>"
    and e2: "9007199254740992 * \<bar>q - a\<bar> \<le> 3 * \<bar>a\<bar>"
    and e3: "9007199254740992 * \<bar>r - (o' + q)\<bar> \<le> \<bar>o' + q\<bar>"
  shows "9007199254740992 * \<bar>r - (o' + d)\<bar> \<le> \<bar>o'\<bar> + 6 * \<bar>d\<bar>"
proof -
  define A where "A = \<bar>a\<bar>"
  define D where "D = \<bar>d\<bar>"
  define Oa where "Oa = \<bar>o'\<bar>"
  define OQ where "OQ = \<bar>o' + q\<bar>"
  define Q where "Q = \<bar>q\<bar>"
  define xad where "xad = \<bar>a - d\<bar>"
  define xqa where "xqa = \<bar>q - a\<bar>"
  define xqd where "xqd = \<bar>q - d\<bar>"
  define xr where "xr = \<bar>r - (o' + q)\<bar>"
  define w where "w = \<bar>r - (o' + d)\<bar>"
  have "0 \<le> D" "0 \<le> Oa" by (simp_all add: D_def Oa_def)
  moreover have "A \<le> xad + D" unfolding A_def xad_def D_def by simp
  moreover have "xqd \<le> xqa + xad" unfolding xqd_def xqa_def xad_def by simp
  moreover have "Q \<le> xqd + D" unfolding Q_def xqd_def D_def by simp
  moreover have "OQ \<le> Oa + Q" unfolding OQ_def Oa_def Q_def by simp
  moreover have "w \<le> xr + xqd" unfolding w_def xr_def xqd_def by simp
  moreover from e1 have "9007199254740992 * xad \<le> D" by (simp add: xad_def D_def)
  moreover from e2 have "9007199254740992 * xqa \<le> 3 * A" by (simp add: xqa_def A_def)
  moreover from e3 have "9007199254740992 * xr \<le> OQ" by (simp add: xr_def OQ_def)
  ultimately have "9007199254740992 * w \<le> Oa + 6 * D" by linarith
  then show ?thesis by (simp add: w_def Oa_def D_def)
qed

lemma roundsD: "rounds_binary64 fl \<Longrightarrow> 9007199254740992 * \<bar>fl x - x\<bar> \<le> \<bar>x\<bar>"
  by (simp add: rounds_binary64_def unit_roundoff_def field_simps)

lemma fl_pxPerMs_pos:
  assumes "rounds_binary64 fl" "0 < p"
  shows "0 < fl_pxPerMs fl p"
proof -
  define k where "k = real_of_int p / 3600000"
  from assms(2) have "0 < k" by (simp add: k_def)
  moreover from roundsD [OF assms(1), of k] have "9007199254740992 * \<bar>fl k - k\<bar> \<le> \<bar>k\<bar>" .
  ultimately have "0 < fl k" by (rule rel_error_pos)
  with assms(2) show ?thesis by (simp add: fl_pxPerMs_def k_def)
qed

lemma fl_mul_div_cancel:
  assumes "rounds_binary64 fl" "0 < k"
  shows "9007199254740992 * \<bar>fl (fl (a * k) / k) - a\<bar> \<le> 3 * \<bar>a\<bar>"
proof -
  define px where "px = fl (a * k)"
  define y where "y = px / k"
  have "9007199254740992 * \<bar>px - a * k\<bar> \<le> \<bar>a * k\<bar>"
    unfolding px_def by (rule roundsD [OF assms(1)])
  moreover have "\<bar>a * k\<bar> = \<bar>a\<bar> * k"
    using assms(2) by (simp add: abs_mult)
  moreover have "\<bar>px - a * k\<bar> = \<bar>y - a\<bar> * k"
  proof -
    have "px - a * k = (y - a) * k"
      using assms(2) by (simp add: y_def field_simps)
    then have "\<bar>px - a * k\<bar> = \<bar>y - a\<bar> * \<bar>k\<bar>"
      by (simp only: abs_mult)
    with assms(2) show ?thesis by simp
  qed
  ultimately have "(9007199254740992 * \<bar>y - a\<bar>) * k \<le> \<bar>a\<bar> * k" by simp
  with assms(2) have e1: "9007199254740992 * \<bar>y - a\<bar> \<le> \<bar>a\<bar>"
    by (simp only: mult_le_cancel_right_pos)
  have e2: "9007199254740992 * \<bar>fl y - y\<bar> \<le> \<bar>y\<bar>"
    by (rule roundsD [OF assms(1)])
  from e1 e2 have "9007199254740992 * \<bar>fl y - a\<bar> \<le> 3 * \<bar>a\<bar>" by (rule rel_error_two_steps)
  then show ?thesis by (simp add: y_def px_def)
qed

lemma fl_roundtrip_bound:
  assumes "rounds_binary64 fl" "0 < p"
  shows "\<bar>fl_pixelToTime fl origin p (fl_timeToPixel fl origin p t) - t\<bar>
           \<le> unit_roundoff * (\<bar>real_of_int origin\<bar> + 6 * \<bar>t - real_of_int origin\<bar>)"
proof -
  define o' where "o' = real_of_int origin"
  define d where "d = t - o'"
  define k where "k = fl_pxPerMs fl p"
  define a where "a = fl d"
  define q where "q = fl (fl (a * k) / k)"
  define r where "r = fl (o' + q)"
  have k: "0 < k" unfolding k_def by (rule fl_pxPerMs_pos [OF assms])
  have e1: "9007199254740992 * \<bar>a - d\<bar> \<le> \<bar>d\<bar>"
    unfolding a_def by (rule roundsD [OF assms(1)])
  have e2: "9007199254740992 * \<bar>q - a\<bar> \<le> 3 * \<bar>a\<bar>"
    unfolding q_def by (rule fl_mul_div_cancel [OF assms(1) k])
  have e3: "9007199254740992 * \<bar>r - (o' + q)\<bar> \<le> \<bar>o' + q\<bar>"
    unfolding r_def by (rule roundsD [OF assms(1)])
  from e1 e2 e3 have "9007199254740992 * \<bar>r - (o' + d)\<bar> \<le> \<bar>o'\<bar> + 6 * \<bar>d\<bar>"
    by (rule rel_error_roundtrip)
  moreover have "o' + d = t" by (simp add: d_def)
  moreover have "r = fl_pixelToTime fl origin p (fl_timeToPixel fl origin p t)"
    by (simp add: r_def q_def a_def k_def d_def o'_def fl_pixelToTime_def fl_timeToPixel_def)
  ultimately show ?thesis
    by (simp add: unit_roundoff_def d_def o'_def field_simps)
qed

text \<open>
  Claim C9. At a scale between 30 and 300: the pixel of an instant is
  (instant - origin) * scale / 3600000 and the instant of a pixel is
  origin + pixel * 3600000 / scale; going from an instant to its pixel and back gives the
  instant itself (and from a pixel to its instant and back the pixel), exactly over the
  reals. Computed with every operation rounded as binary64 arithmetic rounds, the round
  trip returns the instant up to \<open>1 / 2 ^ 53\<close> times (|origin| + 6 |instant - origin|).
\<close>

theorem pixel_time_roundtrip:
  assumes "30 \<le> p" "p \<le> 300"
  shows "timeToPixel origin p t = (t - real_of_int origin) * real_of_int p / 3600000
       \<and> pixelToTime origin p x = real_of_int origin + x * 3600000 / real_of_int p
       \<and> pixelToTime origin p (timeToPixel origin p t) = t
       \<and> timeToPixel origin p (pixelToTime origin p x) = x
       \<and> (rounds_binary64 fl \<longrightarrow>
            \<bar>fl_pixelToTime fl origin p (fl_timeToPixel fl origin p t) - t\<bar>
              \<le> unit_roundoff * (\<bar>real_of_int origin\<bar> + 6 * \<bar>t - real_of_int origin\<bar>))"
proof -
  from assms(1) have pos: "0 < p" by simp
  have c1: "timeToPixel origin p t = (t - real_of_int origin) * real_of_int p / 3600000"
    using pos by (simp add: timeToPixel_def pxPerMs_def)
  have c2: "pixelToTime origin p x = real_of_int origin + x * 3600000 / real_of_int p"
    using pos by (simp add: pixelToTime_def pxPerMs_def)
  have c3: "pixelToTime origin p (timeToPixel origin p t) = t"
    by (rule pixelToTime_timeToPixel [OF pos])
  have c4: "timeToPixel origin p (pixelToTime origin p x) = x"
    by (rule timeToPixel_pixelToTime [OF pos])
  have c5: "rounds_binary64 fl \<longrightarrow>
            \<bar>fl_pixelToTime fl origin p (fl_timeToPixel fl origin p t) - t\<bar>
              \<le> unit_roundoff * (\<bar>real_of_int origin\<bar> + 6 * \<bar>t - real_of_int origin\<bar>)"
    using pos by (blast intro: fl_roundtrip_bound)
  from c1 c2 c3 c4 c5 show ?thesis by (intro conjI)
qed

theorem pixel_time_roundtrip_witness:
  "(30::int) \<le> 110 \<and> (110::int) \<le> 300
   \<and> timeToPixel 0 110 7200000 = 220
   \<and> pixelToTime 0 110 (timeToPixel 0 110 7200000) = 7200000
   \<and> rounds_binary64 (\<lambda>x. x + x / 2 ^ 53)
   \<and> \<bar>fl_pixelToTime (\<lambda>x. x + x / 2 ^ 53) 0 110 (fl_timeToPixel (\<lambda>x. x + x / 2 ^ 53) 0 110 7200000) - 7200000\<bar>
        \<le> unit_roundoff * (0 + 6 * 7200000)"
proof -
  have h1: "(30::int) \<le> 110" and h2: "(110::int) \<le> 300" by simp_all
  have r: "rounds_binary64 (\<lambda>x. x + x / 2 ^ 53)"
    by (simp add: rounds_binary64_def unit_roundoff_def)
  note w = pixel_time_roundtrip [OF h1 h2, of 0 7200000 0 "\<lambda>x. x + x / 2 ^ 53"]
  from w have w1: "timeToPixel 0 110 7200000 = 220" by simp
  from w have w3: "pixelToTime 0 110 (timeToPixel 0 110 7200000) = 7200000" by blast
  from w r have w5: "\<bar>fl_pixelToTime (\<lambda>x. x + x / 2 ^ 53) 0 110 (fl_timeToPixel (\<lambda>x. x + x / 2 ^ 53) 0 110 7200000) - 7200000\<bar>
        \<le> unit_roundoff * (0 + 6 * 7200000)" by simp
  from h1 h2 w1 w3 r w5 show ?thesis by (intro conjI)
qed

section \<open>Dotted dates\<close>

lemma parseCivil_dotted:
  "parseCivil ''10.01.2025 08:00'' ''dd.MM.yyyy HH:mm'' =
     Some \<lparr>year = 2025, month = 1, day = 10, hour = 8, minute = 0\<rparr>"
  by code_simp

lemma parseCivil_month_first:
  "parseCivil ''10.01.2025 08:00'' ''MM.dd.yyyy HH:mm'' =
     Some \<lparr>year = 2025, month = 10, day = 1, hour = 8, minute = 0\<rparr>"
  by code_simp

lemma toDate_generic_first: "dateParse P s = Some d \<Longrightarrow> toDate P (VStr s) = Some d"
  by simp

lemma toDate_dotted_fallback:
  "dateParse P ''10.01.2025 08:00'' = None \<Longrightarrow>
   toDate P (VStr ''10.01.2025 08:00'') =
     Some (localTime P \<lparr>year = 2025, month = 1, day = 10, hour = 8, minute = 0\<rparr>)"
  by (simp add: fmts_def parseDateFns_def parseCivil_dotted)

text \<open>
  The demo rows of the source are consecutive days of January 2025 in this notation.
  On the month-first runtime the last row, from \<^verbatim>\<open>12.01.2025 15:00\<close> to
  \<^verbatim>\<open>13.01.2025 10:00\<close>, starts on 1 December and ends on 13 January (13 is no
  month, so only this one falls through to the day-first pattern): its end is before
  its start.
\<close>

lemma demo_row_month_first:
  "toDate monthFirstPlatform (VStr ''12.01.2025 15:00'') =
     Some (utcTime \<lparr>year = 2025, month = 12, day = 1, hour = 15, minute = 0\<rparr>) \<and>
   toDate monthFirstPlatform (VStr ''13.01.2025 10:00'') =
     Some (utcTime \<lparr>year = 2025, month = 1, day = 13, hour = 10, minute = 0\<rparr>) \<and>
   utcTime \<lparr>year = 2025, month = 1, day = 13, hour = 10, minute = 0\<rparr>
     < utcTime \<lparr>year = 2025, month = 12, day = 1, hour = 15, minute = 0\<rparr>"
  by code_simp

text \<open>
  Claim C2. For the string \<^verbatim>\<open>10.01.2025 08:00\<close> the result is whatever the runtime's
  generic parse makes of it, when that is a valid date; only when the generic parse
  rejects the string is it read by the first pattern, day first, as 10 January 2025,
  08:00 local time. On a runtime whose generic parse reads dotted dates month first the
  function returns 1 October 2025, 08:00, a different instant.
\<close>

theorem toDate_dotted_date:
  "toDate P (VStr ''10.01.2025 08:00'') =
     (case dateParse P ''10.01.2025 08:00'' of
        Some d1 \<Rightarrow> Some d1
      | None \<Rightarrow> Some (localTime P \<lparr>year = 2025, month = 1, day = 10, hour = 8, minute = 0\<rparr>))
   \<and> toDate strictPlatform (VStr ''10.01.2025 08:00'') =
       Some (utcTime \<lparr>year = 2025, month = 1, day = 10, hour = 8, minute = 0\<rparr>)
   \<and> toDate monthFirstPlatform (VStr ''10.01.2025 08:00'') =
       Some (utcTime \<lparr>year = 2025, month = 10, day = 1, hour = 8, minute = 0\<rparr>)
   \<and> utcTime \<lparr>year = 2025, month = 10, day = 1, hour = 8, minute = 0\<rparr>
       \<noteq> utcTime \<lparr>year = 2025, month = 1, day = 10, hour = 8, minute = 0\<rparr>"
proof (intro conjI)
  show "toDate P (VStr ''10.01.2025 08:00'') =
     (case dateParse P ''10.01.2025 08:00'' of
        Some d1 \<Rightarrow> Some d1
      | None \<Rightarrow> Some (localTime P \<lparr>year = 2025, month = 1, day = 10, hour = 8, minute = 0\<rparr>))"
  proof (cases "dateParse P ''10.01.2025 08:00''")
    case None
    from toDate_dotted_fallback [OF None] show ?thesis
      by (simp only: None option.case)
  next
    case (Some d)
    from toDate_generic_first [OF Some] show ?thesis
      by (simp only: Some option.case)
  qed
  show "toDate strictPlatform (VStr ''10.01.2025 08:00'') =
       Some (utcTime \<lparr>year = 2025, month = 1, day = 10, hour = 8, minute = 0\<rparr>)"
    using toDate_dotted_fallback [of strictPlatform] by (simp add: strictPlatform_def)
  show "toDate monthFirstPlatform (VStr ''10.01.2025 08:00'') =
       Some (utcTime \<lparr>year = 2025, month = 10, day = 1, hour = 8, minute = 0\<rparr>)"
    by (simp add: monthFirstPlatform_def parseCivil_month_first)
  show "utcTime \<lparr>year = 2025, month = 10, day = 1, hour = 8, minute = 0\<rparr>
       \<noteq> utcTime \<lparr>year = 2025, month = 1, day = 10, hour = 8, minute = 0\<rparr>"
    by (simp add: utcTime_def daysFromCivil_def)
qed

end
